theory Spec2Isabelle
  imports Main
begin

section \<open>Values, rows and datasets\<close>

text \<open>
  The pipeline of \<^verbatim>\<open>src/process.py\<close> works on a table of the \<^verbatim>\<open>datasets\<close> library:
  an ordered collection of rows under a common list of column names. A row is a Python
  dict from column names to cells. The cells the code reads are lists (\<^verbatim>\<open>sequence\<close>,
  \<^verbatim>\<open>keywords\<close>, \<^verbatim>\<open>sequence_first_terms\<close>); the cells it writes are lists or scalars
  (\<^verbatim>\<open>sequence_next_term\<close>, \<^verbatim>\<open>is_easy\<close>). List elements are Python values compared
  with \<^verbatim>\<open>==\<close>: integers and strings here.
\<close>

datatype atom = AInt int | AStr string

datatype cell = Atom atom | Seq "atom list"

type_synonym row = "string \<rightharpoonup> cell"

record dataset =
  column_names :: "string list"
  rows :: "row list"

text \<open>
  Python exceptions are values. \<open>TypeError\<close> stands for a list operation (\<^verbatim>\<open>len\<close>, a slice,
  \<^verbatim>\<open>tuple(...)\<close>, \<^verbatim>\<open>in\<close>) applied to a scalar cell, \<open>KeyError\<close> for a row without the key
  that is read, \<open>IndexError\<close> for \<^verbatim>\<open>seq[-1]\<close> on an empty list, \<open>ValueError\<close> for the
  library's refusal of a column name the table does not have. \<open>LoadError\<close> and \<open>WriteError\<close>
  stand for what the loader and the writer raise. A scalar string where the code expects a
  list is not modelled as Python would treat it (as the sequence of its characters): the
  statements about a column of lists say so in their hypotheses.
\<close>

datatype error = IndexError | KeyError | TypeError | ValueError | LoadError | WriteError

definition bind_result :: "error + 'a \<Rightarrow> ('a \<Rightarrow> error + 'b) \<Rightarrow> error + 'b" where
  "bind_result m f = (case m of Inl e \<Rightarrow> Inl e | Inr x \<Rightarrow> f x)"

text \<open>
  A list comprehension or \<^verbatim>\<open>for\<close> loop whose body may raise: the first element that raises
  ends the loop with that exception.
\<close>

fun traverse :: "('a \<Rightarrow> error + 'b) \<Rightarrow> 'a list \<Rightarrow> error + 'b list" where
  "traverse f [] = Inr []"
| "traverse f (x # xs) =
     bind_result (f x) (\<lambda>y. bind_result (traverse f xs) (\<lambda>ys. Inr (y # ys)))"

subsection \<open>Python list primitives\<close>

text \<open>\<^verbatim>\<open>seq[:k]\<close>: a negative \<open>k\<close> counts from the end, and the bound is clipped to the list.\<close>

definition slice_to :: "'a list \<Rightarrow> int \<Rightarrow> 'a list" where
  "slice_to seq k =
     (if k < 0 then take (nat (int (length seq) + k)) seq else take (nat k) seq)"

text \<open>\<^verbatim>\<open>seq[i]\<close>: a negative \<open>i\<close> counts from the end; out of range raises.\<close>

definition index :: "'a list \<Rightarrow> int \<Rightarrow> error + 'a" where
  "index seq i =
     (let j = (if i < 0 then int (length seq) + i else i)
      in if 0 \<le> j \<and> j < int (length seq) then Inr (seq ! nat j) else Inl IndexError)"

text \<open>A cell used as a list.\<close>

definition as_list :: "cell \<Rightarrow> error + atom list" where
  "as_list c = (case c of Atom a \<Rightarrow> Inl TypeError | Seq seq \<Rightarrow> Inr seq)"

section \<open>The functions of \<^verbatim>\<open>src/utils.py\<close>\<close>

text \<open>
  The three batched functions receive \<^verbatim>\<open>examples\<close>, a dict of columns, and read only
  \<^verbatim>\<open>examples["sequence"]\<close>: the model takes that column as its argument and returns the
  columns of the returned dict (\<^verbatim>\<open>"sequence"\<close> for the first, the pair
  \<^verbatim>\<open>"sequence_first_terms"\<close>, \<^verbatim>\<open>"sequence_next_term"\<close> for the third).
\<close>

text \<open>One element of the comprehension of \<^verbatim>\<open>truncate_sequence\<close>, and the comprehension.\<close>

definition truncate_one :: "int \<Rightarrow> cell \<Rightarrow> error + cell" where
  "truncate_one max_el c =
     bind_result (as_list c) (\<lambda>seq.
       Inr (Seq (if int (length seq) > max_el then slice_to seq max_el else seq)))"

definition truncate_sequence :: "cell list \<Rightarrow> int \<Rightarrow> error + cell list" where
  "truncate_sequence examples_sequence max_el = traverse (truncate_one max_el) examples_sequence"

definition filter_by_min_length :: "cell list \<Rightarrow> int \<Rightarrow> error + bool list" where
  "filter_by_min_length dataset_sequence n_el =
     traverse (\<lambda>c. bind_result (as_list c) (\<lambda>seq. Inr (int (length seq) \<ge> n_el)))
       dataset_sequence"

text \<open>
  One turn of the loop of \<^verbatim>\<open>extract_next_term\<close>, and the loop: it appends to the two
  result lists turn by turn, and a turn that raises ends it.
\<close>

definition split_one :: "cell \<Rightarrow> error + (cell \<times> cell)" where
  "split_one c =
     bind_result (as_list c) (\<lambda>seq.
       bind_result (index seq (- 1)) (\<lambda>next_term.
         Inr (Seq (slice_to seq (- 1)), Atom next_term)))"

definition extract_next_term :: "cell list \<Rightarrow> error + (cell list \<times> cell list)" where
  "extract_next_term examples_sequence =
     bind_result (traverse split_one examples_sequence) (\<lambda>ps. Inr (map fst ps, map snd ps))"

text \<open>
  The closure \<^verbatim>\<open>filter_unique_sequence\<close> reads and updates the set \<^verbatim>\<open>seen_sequences\<close> of
  its enclosing call: the set is passed in and returned.
\<close>

definition filter_unique_sequence ::
    "atom list set \<Rightarrow> row \<Rightarrow> error + (bool \<times> atom list set)" where
  "filter_unique_sequence seen_sequences example =
     (case example ''sequence_first_terms'' of
        None \<Rightarrow> Inl KeyError
      | Some c \<Rightarrow>
          bind_result (as_list c) (\<lambda>current_sequence_tuple.
            if current_sequence_tuple \<notin> seen_sequences
            then Inr (True, insert current_sequence_tuple seen_sequences)
            else Inr (False, seen_sequences)))"

text \<open>\<^verbatim>\<open>Dataset.filter\<close> with a row predicate: the rows in order, the kept ones in order.\<close>

fun filter_rows :: "atom list set \<Rightarrow> row list \<Rightarrow> error + row list" where
  "filter_rows seen [] = Inr []"
| "filter_rows seen (example # rest) =
     bind_result (filter_unique_sequence seen example) (\<lambda>(keep, seen').
       bind_result (filter_rows seen' rest) (\<lambda>kept.
         Inr (if keep then example # kept else kept)))"

definition drop_duplicate_sequence_beginnings :: "dataset \<Rightarrow> error + dataset" where
  "drop_duplicate_sequence_beginnings ds =
     (if ''sequence_first_terms'' \<notin> set (column_names ds) then Inr ds
      else bind_result (filter_rows {} (rows ds)) (\<lambda>kept. Inr (ds\<lparr>rows := kept\<rparr>)))"

text \<open>\<^verbatim>\<open>_add_easy_flag\<close> returns the dict \<^verbatim>\<open>{"is_easy": v}\<close>; the model returns \<open>v\<close>.\<close>

definition add_easy_flag :: "row \<Rightarrow> error + int" where
  "add_easy_flag example =
     bind_result (as_list (case example ''keywords'' of None \<Rightarrow> Seq [] | Some c \<Rightarrow> c))
       (\<lambda>keywords. Inr (if AStr ''easy'' \<in> set keywords then 1 else 0))"

definition add_column_name :: "string \<Rightarrow> string list \<Rightarrow> string list" where
  "add_column_name c cols = (if c \<in> set cols then cols else cols @ [c])"

definition add_is_easy_column :: "dataset \<Rightarrow> error + dataset" where
  "add_is_easy_column ds =
     (if ''keywords'' \<notin> set (column_names ds) then Inr ds
      else bind_result
             (traverse (\<lambda>example. bind_result (add_easy_flag example) (\<lambda>is_easy_value.
                          Inr (example(''is_easy'' \<mapsto> Atom (AInt is_easy_value)))))
                (rows ds))
             (\<lambda>rs. Inr \<lparr>column_names = add_column_name ''is_easy'' (column_names ds),
                        rows = rs\<rparr>))"

section \<open>The table operations the pipeline calls\<close>

text \<open>
  \<^verbatim>\<open>select_columns\<close> and \<^verbatim>\<open>remove_columns\<close> refuse a name the table does not have.
  A batched \<^verbatim>\<open>map\<close> writes each returned column back under its name, a new name going to
  the end of the column list; a batched \<^verbatim>\<open>filter\<close> keeps the rows whose mask entry is true.
  The batch is the whole table: the three batched functions treat every sequence on its
  own, so the cut of the rows into batches does not show in their result. What the library
  makes of the column list of a table without rows is not modelled apart; the statements
  below about new columns are statements about the rows.
\<close>

definition select_columns :: "string list \<Rightarrow> dataset \<Rightarrow> error + dataset" where
  "select_columns cols ds =
     (if set cols \<subseteq> set (column_names ds)
      then Inr \<lparr>column_names = cols, rows = map (\<lambda>r. r |` set cols) (rows ds)\<rparr>
      else Inl ValueError)"

definition remove_columns :: "string list \<Rightarrow> dataset \<Rightarrow> error + dataset" where
  "remove_columns cols ds =
     (if set cols \<subseteq> set (column_names ds)
      then Inr \<lparr>column_names = filter (\<lambda>c. c \<notin> set cols) (column_names ds),
                rows = map (\<lambda>r. r |` (- set cols)) (rows ds)\<rparr>
      else Inl ValueError)"

definition get_column :: "string \<Rightarrow> dataset \<Rightarrow> error + cell list" where
  "get_column c ds =
     traverse (\<lambda>r. case r c of None \<Rightarrow> Inl KeyError | Some v \<Rightarrow> Inr v) (rows ds)"

definition put_column :: "string \<Rightarrow> cell list \<Rightarrow> dataset \<Rightarrow> dataset" where
  "put_column c vs ds =
     \<lparr>column_names = add_column_name c (column_names ds),
      rows = map2 (\<lambda>r v. r(c \<mapsto> v)) (rows ds) vs\<rparr>"

definition keep_rows :: "bool list \<Rightarrow> dataset \<Rightarrow> dataset" where
  "keep_rows keep ds = ds\<lparr>rows := map fst (filter snd (zip (rows ds) keep))\<rparr>"

section \<open>The pipeline of \<^verbatim>\<open>process_oeis_dataset\<close>\<close>

definition required_columns :: "string list" where
  "required_columns = [''sequence_id'', ''sequence_name'', ''sequence'', ''keywords'']"

text \<open>Step 2: the required columns the table has, selected.\<close>

definition select_stage :: "dataset \<Rightarrow> error + dataset" where
  "select_stage ds =
     (let columns_to_select = filter (\<lambda>col. col \<in> set (column_names ds)) required_columns
      in select_columns columns_to_select ds)"

text \<open>Step 3.\<close>

definition truncate_stage :: "int \<Rightarrow> dataset \<Rightarrow> error + dataset" where
  "truncate_stage max_seq_len sub_ds =
     (if ''sequence'' \<in> set (column_names sub_ds)
      then bind_result (get_column ''sequence'' sub_ds) (\<lambda>examples_sequence.
             bind_result (truncate_sequence examples_sequence max_seq_len) (\<lambda>truncated.
               Inr (put_column ''sequence'' truncated sub_ds)))
      else Inr sub_ds)"

text \<open>Step 4.\<close>

definition filter_stage :: "int \<Rightarrow> dataset \<Rightarrow> error + dataset" where
  "filter_stage min_seq_len sub_ds =
     (if ''sequence'' \<in> set (column_names sub_ds)
      then bind_result (get_column ''sequence'' sub_ds) (\<lambda>dataset_sequence.
             bind_result (filter_by_min_length dataset_sequence min_seq_len) (\<lambda>keep.
               Inr (keep_rows keep sub_ds)))
      else Inr sub_ds)"

text \<open>Step 5.\<close>

definition split_stage :: "dataset \<Rightarrow> error + dataset" where
  "split_stage sub_ds =
     (if ''sequence'' \<in> set (column_names sub_ds)
      then bind_result (get_column ''sequence'' sub_ds) (\<lambda>examples_sequence.
             bind_result (extract_next_term examples_sequence)
               (\<lambda>(sequence_first_terms, sequence_next_term).
                  remove_columns [''sequence'']
                    (put_column ''sequence_next_term'' sequence_next_term
                      (put_column ''sequence_first_terms'' sequence_first_terms sub_ds))))
      else Inr sub_ds)"

text \<open>Step 6.\<close>

definition dedup_stage :: "dataset \<Rightarrow> error + dataset" where
  "dedup_stage sub_ds =
     (if ''sequence_first_terms'' \<in> set (column_names sub_ds)
      then drop_duplicate_sequence_beginnings sub_ds
      else Inr sub_ds)"

text \<open>Step 7.\<close>

definition flag_stage :: "dataset \<Rightarrow> error + dataset" where
  "flag_stage sub_ds =
     (if ''keywords'' \<in> set (column_names sub_ds)
      then bind_result (add_is_easy_column sub_ds) (remove_columns [''keywords''])
      else Inr sub_ds)"

text \<open>Steps 2 to 7: the table handed to the writer, or the exception that escapes.\<close>

definition transform :: "int \<Rightarrow> int \<Rightarrow> dataset \<Rightarrow> error + dataset" where
  "transform max_seq_len min_seq_len ds =
     bind_result (select_stage ds) (\<lambda>d2.
       bind_result (truncate_stage max_seq_len d2) (\<lambda>d3.
         bind_result (filter_stage min_seq_len d3) (\<lambda>d4.
           bind_result (split_stage d4) (\<lambda>d5.
             bind_result (dedup_stage d5) flag_stage))))"

text \<open>
  Step 1 and step 8 talk to the outside: \<^verbatim>\<open>load_dataset\<close> raises or returns a
  \<^verbatim>\<open>DatasetDict\<close>, a \<^verbatim>\<open>Dataset\<close> or something else; creating the directory and
  \<^verbatim>\<open>to_parquet\<close> raise or write the file. Both answers are parameters of the model. The
  outcome of a run is the exception that reaches the caller, if any, and the table written.
\<close>

datatype loaded = DatasetDict "string \<rightharpoonup> dataset" | Dataset dataset | OtherObject

record outcome =
  raised :: "error option"
  written :: "dataset option"

definition process_oeis_dataset ::
    "(error + loaded) \<Rightarrow> (dataset \<Rightarrow> error option) \<Rightarrow> int \<Rightarrow> int \<Rightarrow> outcome" where
  "process_oeis_dataset load_dataset to_parquet max_seq_len min_seq_len =
     (case bind_result load_dataset (\<lambda>full_ds.
             case full_ds of
               DatasetDict d \<Rightarrow> (case d ''train'' of None \<Rightarrow> Inl KeyError | Some ds \<Rightarrow> Inr (Some ds))
             | Dataset ds \<Rightarrow> Inr (Some ds)
             | OtherObject \<Rightarrow> Inr None) of
        Inl e \<Rightarrow> \<lparr>raised = None, written = None\<rparr>
      | Inr None \<Rightarrow> \<lparr>raised = None, written = None\<rparr>
      | Inr (Some ds) \<Rightarrow>
          (case transform max_seq_len min_seq_len ds of
             Inl e \<Rightarrow> \<lparr>raised = Some e, written = None\<rparr>
           | Inr sub_ds \<Rightarrow>
               (case to_parquet sub_ds of
                  Some e \<Rightarrow> \<lparr>raised = None, written = None\<rparr>
                | None \<Rightarrow> \<lparr>raised = None, written = Some sub_ds\<rparr>)))"

section \<open>Vocabulary of the statements\<close>

text \<open>
  The list a row holds under a column (empty when the row has no list there), whether it
  holds a list there, and the value truncation gives one sequence.
\<close>

definition seq_at :: "string \<Rightarrow> row \<Rightarrow> atom list" where
  "seq_at c r = (case r c of Some (Seq s) \<Rightarrow> s | _ \<Rightarrow> [])"

definition holds_list :: "string \<Rightarrow> row \<Rightarrow> bool" where
  "holds_list c r = (case r c of Some (Seq s) \<Rightarrow> True | _ \<Rightarrow> False)"

definition truncated :: "int \<Rightarrow> 'a list \<Rightarrow> 'a list" where
  "truncated max_el seq = (if int (length seq) > max_el then slice_to seq max_el else seq)"

text \<open>What the split makes of one row whose sequence is not empty.\<close>

definition split_row :: "row \<Rightarrow> row" where
  "split_row r =
     (r(''sequence_first_terms'' \<mapsto> Seq (butlast (seq_at ''sequence'' r)),
        ''sequence_next_term'' \<mapsto> Atom (last (seq_at ''sequence'' r)))) |` (- {''sequence''})"

text \<open>
  Row \<open>i\<close> is the first of the table with its \<^verbatim>\<open>sequence_first_terms\<close>: no row before it
  holds an equal list.
\<close>

definition first_occurrence :: "row list \<Rightarrow> nat \<Rightarrow> bool" where
  "first_occurrence rs i \<longleftrightarrow>
     i < length rs \<and>
     seq_at ''sequence_first_terms'' (rs ! i)
       \<notin> seq_at ''sequence_first_terms'' ` set (take i rs)"

text \<open>The row with the flag the keyword test gives it.\<close>

definition flag_row :: "row \<Rightarrow> row" where
  "flag_row r =
     r(''is_easy'' \<mapsto> Atom (AInt (if AStr ''easy'' \<in> set (seq_at ''keywords'' r) then 1 else 0)))"

text \<open>The rows of a table have no key outside its column list.\<close>

definition rows_within :: "dataset \<Rightarrow> bool" where
  "rows_within ds \<longleftrightarrow> (\<forall>r\<in>set (rows ds). \<forall>c. c \<notin> set (column_names ds) \<longrightarrow> r c = None)"

text \<open>The three rows of the example of section 8 of the specification.\<close>

definition example_input :: dataset where
  "example_input =
     \<lparr>column_names = [''sequence'', ''keywords''],
      rows =
        [[''sequence'' \<mapsto> Seq (map AInt [1, 2, 3, 4, 5, 6, 7, 8, 9]),
          ''keywords'' \<mapsto> Seq [AStr ''easy'']],
         [''sequence'' \<mapsto> Seq (map AInt [1, 2, 3, 4, 5, 6, 7, 8, 20]),
          ''keywords'' \<mapsto> Seq []],
         [''sequence'' \<mapsto> Seq (map AInt [1, 2]),
          ''keywords'' \<mapsto> Seq [AStr ''easy'']]]\<rparr>"

section \<open>Basic facts\<close>

lemma bind_result_simps [simp]:
  "bind_result (Inl e) f = Inl e"
  "bind_result (Inr x) f = f x"
  by (simp_all add: bind_result_def)

lemma bind_result_eq_Inr:
  "bind_result m f = Inr y \<longleftrightarrow> (\<exists>x. m = Inr x \<and> f x = Inr y)"
  by (cases m) simp_all

lemma traverse_eq_Inr:
  "traverse f xs = Inr ys \<longleftrightarrow> list_all2 (\<lambda>x y. f x = Inr y) xs ys"
proof (induction xs arbitrary: ys)
  case Nil
  then show ?case by auto
next
  case (Cons x xs)
  then show ?case
    by (cases ys) (auto simp: bind_result_eq_Inr)
qed

lemma traverse_append:
  "traverse f (xs @ ys) =
     bind_result (traverse f xs) (\<lambda>as. bind_result (traverse f ys) (\<lambda>bs. Inr (as @ bs)))"
proof (induction xs)
  case Nil
  show ?case by (cases "traverse f ys") simp_all
next
  case (Cons x xs)
  show ?case
    by (cases "f x"; cases "traverse f xs"; cases "traverse f ys") (simp_all add: Cons)
qed

lemma slice_to_nonneg: "0 \<le> k \<Longrightarrow> slice_to seq k = take (nat k) seq"
  by (simp add: slice_to_def)

lemma slice_to_minus_one: "slice_to seq (- 1) = butlast seq"
  by (simp add: slice_to_def butlast_conv_take nat_diff_distrib')

lemma index_minus_one: "index seq (- 1) = (if seq = [] then Inl IndexError else Inr (last seq))"
  by (cases "seq = []") (simp_all add: index_def Let_def last_conv_nth nat_diff_distrib')

section \<open>The stages on the sequence column\<close>

lemma seq_at_Some [simp]: "r c = Some (Seq s) \<Longrightarrow> seq_at c r = s"
  by (simp add: seq_at_def)

lemma as_list_eq_Inr [simp]: "as_list c = Inr s \<longleftrightarrow> c = Seq s"
  by (cases c) (simp_all add: as_list_def)

lemma traverse_char:
  assumes "\<And>x y. f x = Inr y \<longleftrightarrow> P x \<and> y = g x"
  shows "traverse f xs = Inr ys \<longleftrightarrow> (\<forall>x\<in>set xs. P x) \<and> ys = map g xs"
proof (induction xs arbitrary: ys)
  case Nil
  show ?case by auto
next
  case (Cons x xs)
  show ?case
    by (auto simp: bind_result_eq_Inr assms Cons)
qed

lemma traverse_fuse:
  "(\<exists>col. traverse f1 rs = Inr col \<and> traverse f2 col = Inr ys) \<longleftrightarrow>
     traverse (\<lambda>r. bind_result (f1 r) f2) rs = Inr ys"
proof -
  have "(\<lambda>r y. \<exists>v. f1 r = Inr v \<and> f2 v = Inr y) = (\<lambda>r v. f1 r = Inr v) OO (\<lambda>v y. f2 v = Inr y)"
    by (auto simp: fun_eq_iff)
  then show ?thesis
    by (simp add: traverse_eq_Inr bind_result_eq_Inr list.rel_compp relcompp_apply)
qed

text \<open>Reading a column and running a per-list function over it.\<close>

lemma traverse_column:
  assumes "\<And>s y. h s = Inr y \<longleftrightarrow> P s \<and> y = g s"
  shows "(\<exists>col. get_column c ds = Inr col \<and>
            traverse (\<lambda>x. bind_result (as_list x) h) col = Inr ys) \<longleftrightarrow>
         (\<forall>r\<in>set (rows ds). holds_list c r \<and> P (seq_at c r)) \<and>
         ys = map (\<lambda>r. g (seq_at c r)) (rows ds)"
  unfolding get_column_def traverse_fuse
proof (rule traverse_char)
  fix r y
  show "bind_result (case r c of None \<Rightarrow> Inl KeyError | Some v \<Rightarrow> Inr v)
          (\<lambda>x. bind_result (as_list x) h) = Inr y \<longleftrightarrow>
        (holds_list c r \<and> P (seq_at c r)) \<and> y = g (seq_at c r)"
    by (auto simp: bind_result_eq_Inr assms holds_list_def seq_at_def
             split: option.splits cell.splits)
qed

lemma map2_same: "map2 f xs (map g xs) = map (\<lambda>x. f x (g x)) xs"
  by (induction xs) simp_all

lemma set_add_column_name [simp]: "set (add_column_name c cols) = insert c (set cols)"
  by (auto simp: add_column_name_def)

lemma rows_update_eq:
  "ds\<lparr>rows := rs\<rparr> = \<lparr>column_names = column_names ds, rows = rs\<rparr>"
  by (cases ds) simp

lemma put_column_map:
  "put_column c (map g (rows ds)) ds =
     \<lparr>column_names = add_column_name c (column_names ds),
      rows = map (\<lambda>r. r(c \<mapsto> g r)) (rows ds)\<rparr>"
  by (simp add: put_column_def map2_same)

lemma keep_rows_map:
  "keep_rows (map P (rows ds)) ds = ds\<lparr>rows := filter P (rows ds)\<rparr>"
proof -
  have "map fst (filter snd (zip xs (map P xs))) = filter P xs" for xs :: "row list"
    by (induction xs) simp_all
  then show ?thesis by (simp add: keep_rows_def)
qed

lemma truncate_stage_eq_Inr:
  assumes "''sequence'' \<in> set (column_names ds)"
  shows "truncate_stage m ds = Inr ds' \<longleftrightarrow>
           (\<forall>r\<in>set (rows ds). holds_list ''sequence'' r) \<and>
           ds' = ds\<lparr>rows := map (\<lambda>r. r(''sequence'' \<mapsto> Seq (truncated m (seq_at ''sequence'' r))))
                              (rows ds)\<rparr>"
proof -
  have "truncate_stage m ds = Inr ds' \<longleftrightarrow>
          (\<exists>t. (\<exists>col. get_column ''sequence'' ds = Inr col \<and>
                  traverse (\<lambda>x. bind_result (as_list x) (\<lambda>seq. Inr (Seq (truncated m seq)))) col
                    = Inr t) \<and>
               ds' = put_column ''sequence'' t ds)"
    using assms
    by (auto simp: truncate_stage_def truncate_sequence_def truncate_one_def [abs_def] truncated_def
                   bind_result_eq_Inr)
  also have "\<dots> \<longleftrightarrow>
          (\<forall>r\<in>set (rows ds). holds_list ''sequence'' r) \<and>
          ds' = put_column ''sequence''
                  (map (\<lambda>r. Seq (truncated m (seq_at ''sequence'' r))) (rows ds)) ds"
    by (subst traverse_column [where P = "\<lambda>_. True" and g = "\<lambda>s. Seq (truncated m s)"]) auto
  finally show ?thesis
    using assms by (simp add: put_column_map add_column_name_def rows_update_eq)
qed

lemma filter_stage_eq_Inr:
  assumes "''sequence'' \<in> set (column_names ds)"
  shows "filter_stage n ds = Inr ds' \<longleftrightarrow>
           (\<forall>r\<in>set (rows ds). holds_list ''sequence'' r) \<and>
           ds' = ds\<lparr>rows := filter (\<lambda>r. n \<le> int (length (seq_at ''sequence'' r))) (rows ds)\<rparr>"
proof -
  have "filter_stage n ds = Inr ds' \<longleftrightarrow>
          (\<exists>t. (\<exists>col. get_column ''sequence'' ds = Inr col \<and>
                  traverse (\<lambda>x. bind_result (as_list x) (\<lambda>seq. Inr (n \<le> int (length seq)))) col
                    = Inr t) \<and>
               ds' = keep_rows t ds)"
    using assms
    by (auto simp: filter_stage_def filter_by_min_length_def bind_result_eq_Inr)
  also have "\<dots> \<longleftrightarrow>
          (\<forall>r\<in>set (rows ds). holds_list ''sequence'' r) \<and>
          ds' = keep_rows (map (\<lambda>r. n \<le> int (length (seq_at ''sequence'' r))) (rows ds)) ds"
    by (subst traverse_column [where P = "\<lambda>_. True" and g = "\<lambda>s. n \<le> int (length s)"]) auto
  finally show ?thesis
    by (simp add: keep_rows_map)
qed

lemma split_stage_eq_Inr:
  assumes "''sequence'' \<in> set (column_names ds)"
  shows "split_stage ds = Inr ds' \<longleftrightarrow>
           (\<forall>r\<in>set (rows ds). holds_list ''sequence'' r \<and> seq_at ''sequence'' r \<noteq> []) \<and>
           ds' = \<lparr>column_names =
                    filter (\<lambda>c. c \<noteq> ''sequence'')
                      (add_column_name ''sequence_next_term''
                        (add_column_name ''sequence_first_terms'' (column_names ds))),
                  rows = map split_row (rows ds)\<rparr>"
proof -
  let ?h = "\<lambda>seq. bind_result (index seq (- 1)) (\<lambda>next_term.
              Inr (Seq (slice_to seq (- 1)), Atom next_term))"
  let ?g = "\<lambda>s. (Seq (butlast s), Atom (last s))"
  let ?out = "\<lambda>ps. remove_columns [''sequence'']
                 (put_column ''sequence_next_term'' (map snd ps)
                    (put_column ''sequence_first_terms'' (map fst ps) ds))"
  have h: "?h s = Inr y \<longleftrightarrow> s \<noteq> [] \<and> y = ?g s" for s y
    by (auto simp: index_minus_one slice_to_minus_one)
  have "split_stage ds = Inr ds' \<longleftrightarrow>
          (\<exists>ps. (\<exists>col. get_column ''sequence'' ds = Inr col \<and>
                  traverse (\<lambda>x. bind_result (as_list x) ?h) col = Inr ps) \<and>
               ?out ps = Inr ds')"
    using assms
    by (auto simp: split_stage_def extract_next_term_def split_one_def [abs_def] bind_result_eq_Inr)
  also have "\<dots> \<longleftrightarrow>
          (\<forall>r\<in>set (rows ds). holds_list ''sequence'' r \<and> seq_at ''sequence'' r \<noteq> []) \<and>
          ?out (map (\<lambda>r. ?g (seq_at ''sequence'' r)) (rows ds)) = Inr ds'"
    by (subst traverse_column [where P = "\<lambda>s. s \<noteq> []" and g = ?g, OF h]) auto
  also have "?out (map (\<lambda>r. ?g (seq_at ''sequence'' r)) (rows ds)) =
               Inr \<lparr>column_names =
                    filter (\<lambda>c. c \<noteq> ''sequence'')
                      (add_column_name ''sequence_next_term''
                        (add_column_name ''sequence_first_terms'' (column_names ds))),
                  rows = map split_row (rows ds)\<rparr>"
    using assms
    by (simp add: o_def put_column_def map2_same map2_map_map remove_columns_def split_row_def)
  finally show ?thesis by auto
qed

section \<open>Truncation\<close>

lemma truncate_one_Seq:
  "truncate_one max_el (Seq seq) =
     Inr (Seq (if int (length seq) > max_el then slice_to seq max_el else seq))"
  by (simp add: truncate_one_def as_list_def)

lemma truncate_sequence_Seq:
  "truncate_sequence (map Seq seqs) max_el =
     Inr (map (\<lambda>seq. Seq (if int (length seq) > max_el then slice_to seq max_el else seq)) seqs)"
  unfolding truncate_sequence_def
  by (induction seqs) (simp_all add: truncate_one_Seq)

text \<open>
  The batched functions work sequence by sequence: over two batches one after the other
  they give what they give over the rows of both at once.
\<close>

lemma truncate_sequence_batches:
  "truncate_sequence (xs @ ys) max_el =
     bind_result (truncate_sequence xs max_el) (\<lambda>as.
       bind_result (truncate_sequence ys max_el) (\<lambda>bs. Inr (as @ bs)))"
  by (simp add: truncate_sequence_def traverse_append)

lemma filter_by_min_length_batches:
  "filter_by_min_length (xs @ ys) n_el =
     bind_result (filter_by_min_length xs n_el) (\<lambda>as.
       bind_result (filter_by_min_length ys n_el) (\<lambda>bs. Inr (as @ bs)))"
  by (simp add: filter_by_min_length_def traverse_append)

lemma extract_next_term_batches:
  "extract_next_term (xs @ ys) =
     bind_result (extract_next_term xs) (\<lambda>(fa, na).
       bind_result (extract_next_term ys) (\<lambda>(fb, nb). Inr (fa @ fb, na @ nb)))"
  by (cases "traverse split_one xs"; cases "traverse split_one ys")
     (simp_all add: extract_next_term_def traverse_append)

text \<open>
  Claim C3. A batch whose sequences all have at most \<open>max_el\<close> elements is returned as it
  is. For \<open>max_el\<close> in the domain section 6 of the specification gives it, a positive integer
  (zero is covered as well), truncation returns, for each sequence, its first \<open>max_el\<close>
  elements when it is longer than \<open>max_el\<close> and the sequence itself otherwise; every result
  has at most \<open>max_el\<close> elements, so truncating the result again changes nothing.
\<close>

theorem truncate_sequence_idempotent:
  "((\<forall>seq\<in>set seqs. int (length seq) \<le> max_el) \<longrightarrow>
      truncate_sequence (map Seq seqs) max_el = Inr (map Seq seqs)) \<and>
   (0 \<le> max_el \<longrightarrow>
      (\<exists>trunc. truncate_sequence (map Seq seqs) max_el = Inr (map Seq trunc) \<and>
         trunc = map (\<lambda>seq. if int (length seq) > max_el then take (nat max_el) seq else seq)
                   seqs \<and>
         (\<forall>t\<in>set trunc. int (length t) \<le> max_el) \<and>
         truncate_sequence (map Seq trunc) max_el = Inr (map Seq trunc)))"
proof (intro conjI impI)
  assume "\<forall>seq\<in>set seqs. int (length seq) \<le> max_el"
  then have "map (\<lambda>seq. Seq (if int (length seq) > max_el then slice_to seq max_el else seq)) seqs
               = map Seq seqs"
    by (auto simp: not_less [symmetric])
  then show "truncate_sequence (map Seq seqs) max_el = Inr (map Seq seqs)"
    by (simp only: truncate_sequence_Seq)
next
  assume nonneg: "0 \<le> max_el"
  define t where
    "t = (\<lambda>seq::atom list. if int (length seq) > max_el then take (nat max_el) seq else seq)"
  have short: "int (length (t seq)) \<le> max_el" for seq
    using nonneg by (auto simp: t_def)
  have 1: "truncate_sequence (map Seq seqs) max_el = Inr (map Seq (map t seqs))"
    using nonneg by (simp add: truncate_sequence_Seq slice_to_nonneg o_def t_def)
  have "map (\<lambda>seq. Seq (if int (length seq) > max_el then slice_to seq max_el else seq))
          (map t seqs)
          = map Seq (map t seqs)"
    using short by (auto simp: not_less [symmetric])
  then have 2: "truncate_sequence (map Seq (map t seqs)) max_el = Inr (map Seq (map t seqs))"
    by (simp only: truncate_sequence_Seq)
  have 4: "\<forall>s\<in>set (map t seqs). int (length s) \<le> max_el"
    using short by auto
  show "\<exists>trunc. truncate_sequence (map Seq seqs) max_el = Inr (map Seq trunc) \<and>
         trunc = map (\<lambda>seq. if int (length seq) > max_el then take (nat max_el) seq else seq)
                   seqs \<and>
         (\<forall>t\<in>set trunc. int (length t) \<le> max_el) \<and>
         truncate_sequence (map Seq trunc) max_el = Inr (map Seq trunc)"
    using 1 2 4 unfolding t_def by (intro exI [of _ "map t seqs", unfolded t_def] conjI refl)
qed

theorem truncate_sequence_idempotent_witness:
  "(0::int) \<le> 2 \<and>
   truncate_sequence [Seq [AInt 5, AInt 6, AInt 7], Seq [AInt 9]] 2
     = Inr [Seq [AInt 5, AInt 6], Seq [AInt 9]] \<and>
   int (length [AInt 5, AInt 6]) \<le> 2 \<and> int (length [AInt 9]) \<le> 2 \<and>
   truncate_sequence [Seq [AInt 5, AInt 6], Seq [AInt 9]] 2
     = Inr [Seq [AInt 5, AInt 6], Seq [AInt 9]]"
  using truncate_sequence_idempotent [of "[[AInt 5, AInt 6, AInt 7], [AInt 9]]" 2]
        truncate_sequence_idempotent [of "[[AInt 5, AInt 6], [AInt 9]]" 2]
  by simp

text \<open>
  Outside that domain the hypothesis is needed: for a negative \<open>max_el\<close> the slice counts
  from the end of the sequence.
\<close>

lemma truncate_sequence_negative_max:
  "truncate_sequence [Seq [AInt 1, AInt 2, AInt 3]] (- 1) = Inr [Seq [AInt 1, AInt 2]]"
  by (simp add: truncate_sequence_def truncate_one_def as_list_def slice_to_def)

section \<open>The minimum-length filter\<close>

lemma holds_list_upd [simp]: "holds_list c (r(c \<mapsto> Seq s))"
  by (simp add: holds_list_def)

lemma seq_at_upd [simp]: "seq_at c (r(c \<mapsto> Seq s)) = s"
  by (simp add: seq_at_def)

text \<open>
  Claim C4. On a table whose \<^verbatim>\<open>sequence\<close> column holds lists, the minimum-length filter
  keeps exactly the rows whose sequence has at least \<open>n\<close> elements, in their order: its
  rows are the \<open>filter\<close> of the input rows by that test. In the pipeline it runs on the
  result of truncation, so the test reads the truncated sequence.
\<close>

theorem filter_stage_retains:
  assumes "''sequence'' \<in> set (column_names ds)"
    and "\<forall>r\<in>set (rows ds). holds_list ''sequence'' r"
  shows "\<exists>kept. filter_stage n ds = Inr (ds\<lparr>rows := kept\<rparr>) \<and>
           kept = filter (\<lambda>r. n \<le> int (length (seq_at ''sequence'' r))) (rows ds) \<and>
           (\<forall>r\<in>set (rows ds). r \<in> set kept \<longleftrightarrow> n \<le> int (length (seq_at ''sequence'' r))) \<and>
           bind_result (truncate_stage m ds) (filter_stage n)
             = Inr (ds\<lparr>rows := filter (\<lambda>r. n \<le> int (length (seq_at ''sequence'' r)))
                       (map (\<lambda>r. r(''sequence'' \<mapsto> Seq (truncated m (seq_at ''sequence'' r))))
                          (rows ds))\<rparr>)"
proof -
  let ?t = "ds\<lparr>rows := map (\<lambda>r. r(''sequence'' \<mapsto> Seq (truncated m (seq_at ''sequence'' r))))
                          (rows ds)\<rparr>"
  have t: "truncate_stage m ds = Inr ?t"
    using assms by (simp add: truncate_stage_eq_Inr)
  have "filter_stage n ?t
          = Inr (?t\<lparr>rows := filter (\<lambda>r. n \<le> int (length (seq_at ''sequence'' r))) (rows ?t)\<rparr>)"
    using assms(1) by (subst filter_stage_eq_Inr) simp_all
  with t show ?thesis
    using assms by (simp add: filter_stage_eq_Inr)
qed

theorem filter_stage_retains_witness:
  "filter_stage 2 \<lparr>column_names = [''sequence''],
                    rows = [[''sequence'' \<mapsto> Seq [AInt 1]],
                            [''sequence'' \<mapsto> Seq [AInt 1, AInt 2]],
                            [''sequence'' \<mapsto> Seq []],
                            [''sequence'' \<mapsto> Seq [AInt 3, AInt 4, AInt 5]]]\<rparr>
     = Inr \<lparr>column_names = [''sequence''],
            rows = [[''sequence'' \<mapsto> Seq [AInt 1, AInt 2]],
                    [''sequence'' \<mapsto> Seq [AInt 3, AInt 4, AInt 5]]]\<rparr>"
  using filter_stage_retains
          [of "\<lparr>column_names = [''sequence''],
                 rows = [[''sequence'' \<mapsto> Seq [AInt 1]],
                            [''sequence'' \<mapsto> Seq [AInt 1, AInt 2]],
                            [''sequence'' \<mapsto> Seq []],
                            [''sequence'' \<mapsto> Seq [AInt 3, AInt 4, AInt 5]]]\<rparr>" 2]
  by (simp add: holds_list_def)

section \<open>The split\<close>

lemma split_row_fields:
  "split_row r ''sequence_next_term'' = Some (Atom (last (seq_at ''sequence'' r)))"
  "split_row r ''sequence_first_terms'' = Some (Seq (butlast (seq_at ''sequence'' r)))"
  "split_row r ''sequence'' = None"
  by (simp_all add: split_row_def)

lemma split_stage_rows:
  assumes "''sequence'' \<in> set (column_names ds)"
    and "\<forall>r\<in>set (rows ds). holds_list ''sequence'' r \<and> seq_at ''sequence'' r \<noteq> []"
  shows "\<exists>ds'. split_stage ds = Inr ds' \<and>
           length (rows ds') = length (rows ds) \<and>
           ''sequence'' \<notin> set (column_names ds') \<and>
           (\<forall>i<length (rows ds).
              (rows ds' ! i) ''sequence_next_term''
                = Some (Atom (last (seq_at ''sequence'' (rows ds ! i)))) \<and>
              (rows ds' ! i) ''sequence_first_terms''
                = Some (Seq (butlast (seq_at ''sequence'' (rows ds ! i)))) \<and>
              seq_at ''sequence_first_terms'' (rows ds' ! i)
                  @ [last (seq_at ''sequence'' (rows ds ! i))]
                = seq_at ''sequence'' (rows ds ! i) \<and>
              (rows ds' ! i) ''sequence'' = None)"
proof -
  let ?ds' = "\<lparr>column_names =
                    filter (\<lambda>c. c \<noteq> ''sequence'')
                      (add_column_name ''sequence_next_term''
                        (add_column_name ''sequence_first_terms'' (column_names ds))),
                  rows = map split_row (rows ds)\<rparr>"
  have run: "split_stage ds = Inr ?ds'"
    using assms by (simp add: split_stage_eq_Inr)
  have nonempty: "seq_at ''sequence'' (rows ds ! i) \<noteq> []" if "i < length (rows ds)" for i
    using assms(2) that by simp
  show ?thesis
    by (rule exI [of _ ?ds']) (simp add: run split_row_fields nonempty)
qed

lemma split_one_nonempty:
  "seq \<noteq> [] \<Longrightarrow> split_one (Seq seq) = Inr (Seq (butlast seq), Atom (last seq))"
  by (simp add: split_one_def as_list_def index_minus_one slice_to_minus_one)

lemma split_one_empty: "split_one (Seq []) = Inl IndexError"
  by (simp add: split_one_def as_list_def index_minus_one)

text \<open>
  Claim C1. Of a non-empty sequence the split makes the next term, its last element, and
  the first terms, the sequence without its last element; the first terms followed by the
  next term are the sequence again. When every row reaching the split holds a non-empty
  sequence, the split stage gives each row these two cells, and the \<^verbatim>\<open>sequence\<close> column
  is gone from the column list and from every row.
\<close>

theorem split_stage_reconstructs:
  "(seq \<noteq> [] \<longrightarrow>
      split_one (Seq seq) = Inr (Seq (butlast seq), Atom (last seq)) \<and>
      butlast seq @ [last seq] = seq) \<and>
   (''sequence'' \<in> set (column_names ds) \<and>
    (\<forall>r\<in>set (rows ds). holds_list ''sequence'' r \<and> seq_at ''sequence'' r \<noteq> []) \<longrightarrow>
      (\<exists>ds'. split_stage ds = Inr ds' \<and>
           length (rows ds') = length (rows ds) \<and>
           ''sequence'' \<notin> set (column_names ds') \<and>
           (\<forall>i<length (rows ds).
              (rows ds' ! i) ''sequence_next_term''
                = Some (Atom (last (seq_at ''sequence'' (rows ds ! i)))) \<and>
              (rows ds' ! i) ''sequence_first_terms''
                = Some (Seq (butlast (seq_at ''sequence'' (rows ds ! i)))) \<and>
              seq_at ''sequence_first_terms'' (rows ds' ! i)
                  @ [last (seq_at ''sequence'' (rows ds ! i))]
                = seq_at ''sequence'' (rows ds ! i) \<and>
              (rows ds' ! i) ''sequence'' = None)))"
  using split_one_nonempty [of seq] split_stage_rows [of ds] by simp

theorem split_stage_reconstructs_witness:
  "split_one (Seq [AInt 4, AInt 5, AInt 6]) = Inr (Seq [AInt 4, AInt 5], Atom (AInt 6)) \<and>
   (\<exists>ds'. split_stage \<lparr>column_names = [''sequence''],
                       rows = [[''sequence'' \<mapsto> Seq [AInt 4, AInt 5, AInt 6]]]\<rparr> = Inr ds' \<and>
         ''sequence'' \<notin> set (column_names ds') \<and>
         (rows ds' ! 0) ''sequence_first_terms'' = Some (Seq [AInt 4, AInt 5]) \<and>
         (rows ds' ! 0) ''sequence_next_term'' = Some (Atom (AInt 6)) \<and>
         (rows ds' ! 0) ''sequence'' = None)"
  using split_stage_reconstructs
          [of "[AInt 4, AInt 5, AInt 6]"
              "\<lparr>column_names = [''sequence''],
                 rows = [[''sequence'' \<mapsto> Seq [AInt 4, AInt 5, AInt 6]]]\<rparr>"]
  by (simp add: holds_list_def) blast

section \<open>Deduplication\<close>

lemma filter_unique_sequence_eq_Inr:
  "filter_unique_sequence seen r = Inr p \<longleftrightarrow>
     holds_list ''sequence_first_terms'' r \<and>
     p = (seq_at ''sequence_first_terms'' r \<notin> seen,
          insert (seq_at ''sequence_first_terms'' r) seen)"
  by (auto simp: filter_unique_sequence_def holds_list_def seq_at_def bind_result_eq_Inr
                 insert_absorb
           split: option.splits cell.splits)

lemma filter_rows_eq_Inr:
  "filter_rows seen rs = Inr kept \<longleftrightarrow>
     (\<forall>r\<in>set rs. holds_list ''sequence_first_terms'' r) \<and>
     kept = nths rs {i. i < length rs \<and>
                       seq_at ''sequence_first_terms'' (rs ! i)
                         \<notin> seen \<union> seq_at ''sequence_first_terms'' ` set (take i rs)}"
proof (induction rs arbitrary: seen kept)
  case Nil
  show ?case by auto
next
  case (Cons r rs)
  let ?k = "seq_at ''sequence_first_terms''"
  have shift: "{j. Suc j \<in> {i. i < length (r # rs) \<and> ?k ((r # rs) ! i) \<notin> seen \<union> ?k ` set (take i (r # rs))}}
             = {i. i < length rs \<and> ?k (rs ! i) \<notin> insert (?k r) seen \<union> ?k ` set (take i rs)}"
    by auto
  show ?case
    unfolding nths_Cons shift
    by (auto simp: bind_result_eq_Inr filter_unique_sequence_eq_Inr Cons.IH)
qed

lemma filter_rows_distinct:
  "filter_rows seen rs = Inr kept \<Longrightarrow>
     distinct (map (seq_at ''sequence_first_terms'') kept) \<and>
     seq_at ''sequence_first_terms'' ` set kept = seq_at ''sequence_first_terms'' ` set rs - seen"
proof (induction rs arbitrary: seen kept)
  case Nil
  then show ?case by auto
next
  case (Cons r rs)
  let ?k = "seq_at ''sequence_first_terms''"
  from Cons.prems obtain kept' where
    rest: "filter_rows (insert (?k r) seen) rs = Inr kept'" and
    kept: "kept = (if ?k r \<notin> seen then r # kept' else kept')"
    by (auto simp: bind_result_eq_Inr filter_unique_sequence_eq_Inr)
  from Cons.IH [OF rest] have
    d: "distinct (map ?k kept')" and s: "?k ` set kept' = ?k ` set rs - insert (?k r) seen"
    by auto
  show ?case
  proof (cases "?k r \<in> seen")
    case True
    with kept d s show ?thesis by auto
  next
    case False
    with kept d s show ?thesis by auto
  qed
qed

lemma earlier_first_occurrence:
  assumes "i < length rs" and "\<not> first_occurrence rs i"
  shows "\<exists>j<i. first_occurrence rs j \<and>
           seq_at ''sequence_first_terms'' (rs ! j) = seq_at ''sequence_first_terms'' (rs ! i)"
proof -
  let ?k = "seq_at ''sequence_first_terms''"
  define j where "j = (LEAST j. ?k (rs ! j) = ?k (rs ! i))"
  have eq: "?k (rs ! j) = ?k (rs ! i)"
    unfolding j_def by (rule LeastI [of _ i]) simp
  have least: "?k (rs ! m) \<noteq> ?k (rs ! i)" if "m < j" for m
    using that not_less_Least unfolding j_def by blast
  from assms obtain m where m: "m < i" "?k (rs ! m) = ?k (rs ! i)"
    by (auto simp: first_occurrence_def in_set_conv_nth)
  have "j \<le> m" using least m(2) by (meson not_le_imp_less)
  then have ji: "j < i" using m(1) by simp
  have "first_occurrence rs j"
    unfolding first_occurrence_def
  proof (intro conjI notI)
    show "j < length rs" using ji assms(1) by simp
  next
    assume "?k (rs ! j) \<in> ?k ` set (take j rs)"
    then obtain m where "m < j" "?k (rs ! m) = ?k (rs ! j)"
      by (auto simp: in_set_conv_nth)
    with least [of m] eq show False by simp
  qed
  with ji eq show ?thesis by blast
qed

text \<open>
  Claim C2. On a table with a \<^verbatim>\<open>sequence_first_terms\<close> column holding lists, the
  deduplicator returns the table with the rows at the first occurrences of each list, in
  their order (\<open>nths\<close> keeps the order). The lists of the kept rows are pairwise different,
  every list of the input is still there, and a dropped row has an earlier kept row with
  an equal list. Equality of lists is element by element and in order.
\<close>

theorem drop_duplicates_keeps_first:
  assumes "''sequence_first_terms'' \<in> set (column_names ds)"
    and "\<forall>r\<in>set (rows ds). holds_list ''sequence_first_terms'' r"
  shows "\<exists>kept. drop_duplicate_sequence_beginnings ds = Inr (ds\<lparr>rows := kept\<rparr>) \<and>
           dedup_stage ds = Inr (ds\<lparr>rows := kept\<rparr>) \<and>
           kept = nths (rows ds) {i. first_occurrence (rows ds) i} \<and>
           distinct (map (seq_at ''sequence_first_terms'') kept) \<and>
           seq_at ''sequence_first_terms'' ` set kept
             = seq_at ''sequence_first_terms'' ` set (rows ds) \<and>
           (\<forall>i<length (rows ds). \<not> first_occurrence (rows ds) i \<longrightarrow>
              (\<exists>j<i. first_occurrence (rows ds) j \<and>
                 seq_at ''sequence_first_terms'' (rows ds ! j)
                   = seq_at ''sequence_first_terms'' (rows ds ! i)))"
proof -
  let ?kept = "nths (rows ds) {i. first_occurrence (rows ds) i}"
  have run: "filter_rows {} (rows ds) = Inr ?kept"
    using assms(2) by (simp add: filter_rows_eq_Inr first_occurrence_def)
  have 1: "drop_duplicate_sequence_beginnings ds = Inr (ds\<lparr>rows := ?kept\<rparr>)"
    using assms(1) run by (simp add: drop_duplicate_sequence_beginnings_def)
  have 2: "dedup_stage ds = Inr (ds\<lparr>rows := ?kept\<rparr>)"
    using assms(1) 1 by (simp add: dedup_stage_def)
  from filter_rows_distinct [OF run] have
    3: "distinct (map (seq_at ''sequence_first_terms'') ?kept)" and
    4: "seq_at ''sequence_first_terms'' ` set ?kept
          = seq_at ''sequence_first_terms'' ` set (rows ds)"
    by auto
  show ?thesis
    using 1 2 3 4 earlier_first_occurrence by (intro exI [of _ ?kept] conjI refl) auto
qed

theorem drop_duplicates_keeps_first_witness:
  "drop_duplicate_sequence_beginnings
     \<lparr>column_names = [''sequence_first_terms''],
      rows = [[''sequence_first_terms'' \<mapsto> Seq [AInt 1, AInt 2]],
              [''sequence_first_terms'' \<mapsto> Seq [AInt 2, AInt 1]],
              [''sequence_first_terms'' \<mapsto> Seq [AInt 1, AInt 2], ''sequence_next_term'' \<mapsto> Atom (AInt 7)]]\<rparr>
   = Inr \<lparr>column_names = [''sequence_first_terms''],
      rows = [[''sequence_first_terms'' \<mapsto> Seq [AInt 1, AInt 2]],
              [''sequence_first_terms'' \<mapsto> Seq [AInt 2, AInt 1]]]\<rparr>"
  using drop_duplicates_keeps_first
     [of "\<lparr>column_names = [''sequence_first_terms''],
      rows = [[''sequence_first_terms'' \<mapsto> Seq [AInt 1, AInt 2]],
              [''sequence_first_terms'' \<mapsto> Seq [AInt 2, AInt 1]],
              [''sequence_first_terms'' \<mapsto> Seq [AInt 1, AInt 2], ''sequence_next_term'' \<mapsto> Atom (AInt 7)]]\<rparr>"]
  by (simp add: holds_list_def drop_duplicate_sequence_beginnings_def filter_unique_sequence_def
                as_list_def)

section \<open>The flag\<close>

lemma add_easy_flag_eq_Inr:
  "add_easy_flag r = Inr v \<longleftrightarrow>
     (\<forall>a. r ''keywords'' \<noteq> Some (Atom a)) \<and>
     v = (if AStr ''easy'' \<in> set (seq_at ''keywords'' r) then 1 else 0)"
proof (cases "r ''keywords''")
  case None
  then show ?thesis by (auto simp: add_easy_flag_def seq_at_def as_list_def)
next
  case (Some c)
  then show ?thesis by (cases c) (auto simp: add_easy_flag_def seq_at_def as_list_def)
qed

lemma add_is_easy_column_eq_Inr:
  assumes "''keywords'' \<in> set (column_names ds)"
  shows "add_is_easy_column ds = Inr ds' \<longleftrightarrow>
           (\<forall>r\<in>set (rows ds). \<forall>a. r ''keywords'' \<noteq> Some (Atom a)) \<and>
           ds' = \<lparr>column_names = add_column_name ''is_easy'' (column_names ds),
                  rows = map flag_row (rows ds)\<rparr>"
proof -
  have row: "bind_result (add_easy_flag r) (\<lambda>v. Inr (r(''is_easy'' \<mapsto> Atom (AInt v)))) = Inr y
               \<longleftrightarrow> (\<forall>a. r ''keywords'' \<noteq> Some (Atom a)) \<and> y = flag_row r" for r y
    by (auto simp: bind_result_eq_Inr add_easy_flag_eq_Inr flag_row_def)
  show ?thesis
    using assms
    by (auto simp: add_is_easy_column_def bind_result_eq_Inr traverse_char [OF row])
qed

lemma flag_stage_eq_Inr:
  assumes "''keywords'' \<in> set (column_names ds)"
  shows "flag_stage ds = Inr ds' \<longleftrightarrow>
           (\<forall>r\<in>set (rows ds). \<forall>a. r ''keywords'' \<noteq> Some (Atom a)) \<and>
           ds' = \<lparr>column_names = filter (\<lambda>c. c \<noteq> ''keywords'')
                                   (add_column_name ''is_easy'' (column_names ds)),
                  rows = map (\<lambda>r. flag_row r |` (- {''keywords''})) (rows ds)\<rparr>"
  using assms
  by (auto simp: flag_stage_def bind_result_eq_Inr add_is_easy_column_eq_Inr remove_columns_def
                 o_def)

lemma holds_list_not_scalar: "holds_list c r \<Longrightarrow> r c \<noteq> Some (Atom a)"
  by (auto simp: holds_list_def)

text \<open>
  Claim C5. On a table with a \<^verbatim>\<open>keywords\<close> column holding lists, the flag deriver gives
  every row an \<^verbatim>\<open>is_easy\<close> cell that is 1 exactly when the string \<^verbatim>\<open>easy\<close> is an element of
  the row's keywords, and 0 exactly when it is not; the other cells of the row stay. The
  test is equality of strings, character by character.
\<close>

theorem is_easy_iff_keyword:
  assumes "''keywords'' \<in> set (column_names ds)"
    and "\<forall>r\<in>set (rows ds). holds_list ''keywords'' r"
  shows "\<exists>ds'. add_is_easy_column ds = Inr ds' \<and>
           length (rows ds') = length (rows ds) \<and>
           (\<forall>i<length (rows ds).
              ((rows ds' ! i) ''is_easy'' = Some (Atom (AInt 1))
                 \<longleftrightarrow> AStr ''easy'' \<in> set (seq_at ''keywords'' (rows ds ! i))) \<and>
              ((rows ds' ! i) ''is_easy'' = Some (Atom (AInt 0))
                 \<longleftrightarrow> AStr ''easy'' \<notin> set (seq_at ''keywords'' (rows ds ! i))) \<and>
              (\<forall>c. c \<noteq> ''is_easy'' \<longrightarrow> (rows ds' ! i) c = (rows ds ! i) c))"
proof -
  let ?ds' = "\<lparr>column_names = add_column_name ''is_easy'' (column_names ds),
                  rows = map flag_row (rows ds)\<rparr>"
  have "add_is_easy_column ds = Inr ?ds'"
    using assms by (simp add: add_is_easy_column_eq_Inr holds_list_not_scalar)
  then show ?thesis
    by (intro exI [of _ ?ds']) (simp add: flag_row_def)
qed

theorem is_easy_iff_keyword_witness:
  "add_is_easy_column
     \<lparr>column_names = [''keywords''],
      rows = [[''keywords'' \<mapsto> Seq [AStr ''nonn'', AStr ''easy'']],
              [''keywords'' \<mapsto> Seq [AStr ''Easy'', AStr ''easy '', AStr ''uneasy'']],
              [''keywords'' \<mapsto> Seq []]]\<rparr>
   = Inr \<lparr>column_names = [''keywords'', ''is_easy''],
      rows = [[''keywords'' \<mapsto> Seq [AStr ''nonn'', AStr ''easy''],
               ''is_easy'' \<mapsto> Atom (AInt 1)],
              [''keywords'' \<mapsto> Seq [AStr ''Easy'', AStr ''easy '', AStr ''uneasy''],
               ''is_easy'' \<mapsto> Atom (AInt 0)],
              [''keywords'' \<mapsto> Seq [], ''is_easy'' \<mapsto> Atom (AInt 0)]]\<rparr>"
  using is_easy_iff_keyword
          [of "\<lparr>column_names = [''keywords''],
             rows = [[''keywords'' \<mapsto> Seq [AStr ''nonn'', AStr ''easy'']],
                     [''keywords'' \<mapsto> Seq [AStr ''Easy'', AStr ''easy '', AStr ''uneasy'']],
                     [''keywords'' \<mapsto> Seq []]]\<rparr>"]
  by (simp add: holds_list_def add_is_easy_column_def add_easy_flag_def as_list_def
                add_column_name_def)

section \<open>The pipeline, stage by stage\<close>

lemma select_stage_eq:
  "select_stage ds =
     Inr \<lparr>column_names = filter (\<lambda>c. c \<in> set (column_names ds)) required_columns,
          rows = map (\<lambda>r. r |` set (filter (\<lambda>c. c \<in> set (column_names ds)) required_columns))
                   (rows ds)\<rparr>"
  by (auto simp: select_stage_def select_columns_def Let_def)

lemma dedup_stage_eq_Inr:
  assumes "''sequence_first_terms'' \<in> set (column_names ds)"
  shows "dedup_stage ds = Inr ds' \<longleftrightarrow>
           (\<forall>r\<in>set (rows ds). holds_list ''sequence_first_terms'' r) \<and>
           ds' = ds\<lparr>rows := nths (rows ds) {i. first_occurrence (rows ds) i}\<rparr>"
  using assms
  by (auto simp: dedup_stage_def drop_duplicate_sequence_beginnings_def bind_result_eq_Inr
                 filter_rows_eq_Inr first_occurrence_def)

text \<open>Absent columns: the stage hands its input on.\<close>

lemma stages_skip:
  "''sequence'' \<notin> set (column_names ds) \<Longrightarrow> truncate_stage m ds = Inr ds"
  "''sequence'' \<notin> set (column_names ds) \<Longrightarrow> filter_stage n ds = Inr ds"
  "''sequence'' \<notin> set (column_names ds) \<Longrightarrow> split_stage ds = Inr ds"
  "''sequence_first_terms'' \<notin> set (column_names ds) \<Longrightarrow> dedup_stage ds = Inr ds"
  "''sequence_first_terms'' \<notin> set (column_names ds) \<Longrightarrow>
     drop_duplicate_sequence_beginnings ds = Inr ds"
  "''keywords'' \<notin> set (column_names ds) \<Longrightarrow> flag_stage ds = Inr ds"
  "''keywords'' \<notin> set (column_names ds) \<Longrightarrow> add_is_easy_column ds = Inr ds"
  by (simp_all add: truncate_stage_def filter_stage_def split_stage_def dedup_stage_def
                    drop_duplicate_sequence_beginnings_def flag_stage_def add_is_easy_column_def)

text \<open>The column list after each stage.\<close>

lemma truncate_stage_columns:
  "truncate_stage m ds = Inr ds' \<Longrightarrow> column_names ds' = column_names ds"
  by (cases "''sequence'' \<in> set (column_names ds)")
     (auto simp: truncate_stage_eq_Inr stages_skip)

lemma filter_stage_columns:
  "filter_stage n ds = Inr ds' \<Longrightarrow> column_names ds' = column_names ds"
  by (cases "''sequence'' \<in> set (column_names ds)")
     (auto simp: filter_stage_eq_Inr stages_skip)

lemma split_stage_columns:
  "split_stage ds = Inr ds' \<Longrightarrow>
     column_names ds' =
       (if ''sequence'' \<in> set (column_names ds)
        then filter (\<lambda>c. c \<noteq> ''sequence'')
               (add_column_name ''sequence_next_term''
                 (add_column_name ''sequence_first_terms'' (column_names ds)))
        else column_names ds)"
  by (cases "''sequence'' \<in> set (column_names ds)")
     (auto simp: split_stage_eq_Inr stages_skip)

lemma dedup_stage_columns:
  "dedup_stage ds = Inr ds' \<Longrightarrow> column_names ds' = column_names ds"
  by (cases "''sequence_first_terms'' \<in> set (column_names ds)")
     (auto simp: dedup_stage_eq_Inr stages_skip)

lemma flag_stage_columns:
  "flag_stage ds = Inr ds' \<Longrightarrow>
     column_names ds' =
       (if ''keywords'' \<in> set (column_names ds)
        then filter (\<lambda>c. c \<noteq> ''keywords'') (add_column_name ''is_easy'' (column_names ds))
        else column_names ds)"
  by (cases "''keywords'' \<in> set (column_names ds)")
     (auto simp: flag_stage_eq_Inr stages_skip)

text \<open>The stages of a run that returns.\<close>

lemma transform_eq_Inr:
  "transform m n ds = Inr out \<longleftrightarrow>
     (\<exists>d2 d3 d4 d5 d6. select_stage ds = Inr d2 \<and> truncate_stage m d2 = Inr d3 \<and>
        filter_stage n d3 = Inr d4 \<and> split_stage d4 = Inr d5 \<and> dedup_stage d5 = Inr d6 \<and>
        flag_stage d6 = Inr out)"
  by (simp add: transform_def bind_result_eq_Inr)

lemma transform_columns:
  assumes "transform m n ds = Inr out"
  shows "''sequence'' \<notin> set (column_names out)" and "''keywords'' \<notin> set (column_names out)"
proof -
  from assms obtain d2 d3 d4 d5 d6 where
    st: "select_stage ds = Inr d2" "truncate_stage m d2 = Inr d3" "filter_stage n d3 = Inr d4"
        "split_stage d4 = Inr d5" "dedup_stage d5 = Inr d6" "flag_stage d6 = Inr out"
    unfolding transform_eq_Inr by blast
  have c4: "column_names d4 = column_names d2"
    using st(2,3) by (simp add: truncate_stage_columns filter_stage_columns)
  have c6: "column_names d6 = column_names d5"
    using st(5) by (simp add: dedup_stage_columns)
  have s5: "''sequence'' \<notin> set (column_names d5)"
    using split_stage_columns [OF st(4)] by (auto split: if_splits)
  show "''sequence'' \<notin> set (column_names out)"
    using flag_stage_columns [OF st(6)] s5 c6 by (auto split: if_splits)
  show "''keywords'' \<notin> set (column_names out)"
    using flag_stage_columns [OF st(6)] by (auto split: if_splits)
qed

text \<open>Rows stay within the column list.\<close>

lemma rows_within_map:
  assumes "\<And>r c. r \<in> set (rows ds) \<Longrightarrow> c \<notin> set cols \<Longrightarrow> f r c = None"
  shows "rows_within \<lparr>column_names = cols, rows = map f (rows ds)\<rparr>"
  using assms by (auto simp: rows_within_def)

lemma rows_within_subset:
  assumes "rows_within ds" and "set rs \<subseteq> set (rows ds)"
  shows "rows_within (ds\<lparr>rows := rs\<rparr>)"
  using assms by (auto simp: rows_within_def)

lemma select_stage_within:
  assumes "select_stage ds = Inr ds'"
  shows "rows_within ds'"
proof -
  let ?cols = "filter (\<lambda>c. c \<in> set (column_names ds)) required_columns"
  have "ds' = \<lparr>column_names = ?cols, rows = map (\<lambda>r. r |` set ?cols) (rows ds)\<rparr>"
    using assms by (simp add: select_stage_eq)
  moreover have "rows_within \<lparr>column_names = ?cols, rows = map (\<lambda>r. r |` set ?cols) (rows ds)\<rparr>"
    by (rule rows_within_map) (auto simp: restrict_map_def)
  ultimately show ?thesis by simp
qed

lemma truncate_stage_within:
  assumes "truncate_stage m ds = Inr ds'" and "rows_within ds"
  shows "rows_within ds'"
proof (cases "''sequence'' \<in> set (column_names ds)")
  case True
  with assms(1) have "ds' = \<lparr>column_names = column_names ds,
      rows = map (\<lambda>r. r(''sequence'' \<mapsto> Seq (truncated m (seq_at ''sequence'' r)))) (rows ds)\<rparr>"
    by (simp add: truncate_stage_eq_Inr rows_update_eq)
  moreover have "rows_within \<dots>"
    using True assms(2) by (intro rows_within_map) (auto simp: rows_within_def)
  ultimately show ?thesis by simp
next
  case False
  with assms show ?thesis by (simp add: stages_skip)
qed

lemma filter_stage_within:
  assumes "filter_stage n ds = Inr ds'" and "rows_within ds"
  shows "rows_within ds'"
proof (cases "''sequence'' \<in> set (column_names ds)")
  case True
  with assms(1) have "ds' = ds\<lparr>rows := filter (\<lambda>r. n \<le> int (length (seq_at ''sequence'' r))) (rows ds)\<rparr>"
    by (simp add: filter_stage_eq_Inr)
  then show ?thesis
    using assms(2) by (simp add: rows_within_subset)
next
  case False
  with assms show ?thesis by (simp add: stages_skip)
qed

lemma split_stage_within:
  assumes "split_stage ds = Inr ds'" and "rows_within ds"
  shows "rows_within ds'"
proof (cases "''sequence'' \<in> set (column_names ds)")
  case True
  let ?cols = "filter (\<lambda>c. c \<noteq> ''sequence'')
                      (add_column_name ''sequence_next_term''
                        (add_column_name ''sequence_first_terms'' (column_names ds)))"
  from True assms(1) have "ds' = \<lparr>column_names = ?cols, rows = map split_row (rows ds)\<rparr>"
    by (simp add: split_stage_eq_Inr)
  moreover have "rows_within \<lparr>column_names = ?cols, rows = map split_row (rows ds)\<rparr>"
  proof (rule rows_within_map)
    fix r c
    assume "r \<in> set (rows ds)" and c: "c \<notin> set ?cols"
    with assms(2) have "c = ''sequence'' \<or> (c \<noteq> ''sequence_first_terms'' \<and>
        c \<noteq> ''sequence_next_term'' \<and> r c = None)"
      by (auto simp: rows_within_def)
    then show "split_row r c = None"
      by (auto simp: split_row_def restrict_map_def)
  qed
  ultimately show ?thesis by simp
next
  case False
  with assms show ?thesis by (simp add: stages_skip)
qed

lemma dedup_stage_within:
  assumes "dedup_stage ds = Inr ds'" and "rows_within ds"
  shows "rows_within ds'"
proof (cases "''sequence_first_terms'' \<in> set (column_names ds)")
  case True
  with assms(1) have "ds' = ds\<lparr>rows := nths (rows ds) {i. first_occurrence (rows ds) i}\<rparr>"
    by (simp add: dedup_stage_eq_Inr)
  then show ?thesis
    using assms(2) by (simp add: rows_within_subset set_nths_subset)
next
  case False
  with assms show ?thesis by (simp add: stages_skip)
qed

lemma flag_stage_within:
  assumes "flag_stage ds = Inr ds'" and "rows_within ds"
  shows "rows_within ds'"
proof (cases "''keywords'' \<in> set (column_names ds)")
  case True
  let ?cols = "filter (\<lambda>c. c \<noteq> ''keywords'') (add_column_name ''is_easy'' (column_names ds))"
  let ?f = "\<lambda>r. flag_row r |` (- {''keywords''})"
  from True assms(1) have "ds' = \<lparr>column_names = ?cols, rows = map ?f (rows ds)\<rparr>"
    by (simp add: flag_stage_eq_Inr)
  moreover have "rows_within \<lparr>column_names = ?cols, rows = map ?f (rows ds)\<rparr>"
  proof (rule rows_within_map)
    fix r c
    assume "r \<in> set (rows ds)" and c: "c \<notin> set ?cols"
    with assms(2) have "c = ''keywords'' \<or> (c \<noteq> ''is_easy'' \<and> r c = None)"
      by (auto simp: rows_within_def)
    then show "?f r c = None"
      by (auto simp: flag_row_def restrict_map_def)
  qed
  ultimately show ?thesis by simp
next
  case False
  with assms show ?thesis by (simp add: stages_skip)
qed

lemma transform_within:
  assumes "transform m n ds = Inr out"
  shows "rows_within out"
proof -
  from assms obtain d2 d3 d4 d5 d6 where
    st: "select_stage ds = Inr d2" "truncate_stage m d2 = Inr d3" "filter_stage n d3 = Inr d4"
        "split_stage d4 = Inr d5" "dedup_stage d5 = Inr d6" "flag_stage d6 = Inr out"
    unfolding transform_eq_Inr by blast
  have "rows_within d2" using st(1) by (rule select_stage_within)
  then have "rows_within d3" using st(2) by (simp add: truncate_stage_within)
  then have "rows_within d4" using st(3) by (simp add: filter_stage_within)
  then have "rows_within d5" using st(4) by (simp add: split_stage_within)
  then have "rows_within d6" using st(5) by (simp add: dedup_stage_within)
  then show ?thesis using st(6) by (simp add: flag_stage_within)
qed

lemmas pipeline_defs =
  transform_def select_stage_def select_columns_def required_columns_def Let_def
  truncate_stage_def get_column_def truncate_sequence_def truncate_one_def as_list_def
  slice_to_def put_column_def add_column_name_def filter_stage_def filter_by_min_length_def
  keep_rows_def split_stage_def extract_next_term_def split_one_def index_def
  remove_columns_def dedup_stage_def drop_duplicate_sequence_beginnings_def
  filter_unique_sequence_def flag_stage_def add_is_easy_column_def add_easy_flag_def

lemma truncated_length: "0 \<le> m \<Longrightarrow> int (length (truncated m s)) \<le> m"
  by (auto simp: truncated_def slice_to_def)

lemma select_stage_columns:
  "select_stage ds = Inr d2 \<Longrightarrow>
     column_names d2 = filter (\<lambda>c. c \<in> set (column_names ds)) required_columns"
  by (auto simp: select_stage_eq)

lemma flag_stage_first_terms:
  assumes "flag_stage ds = Inr ds'" and "r' \<in> set (rows ds')"
  shows "\<exists>r\<in>set (rows ds). r' ''sequence_first_terms'' = r ''sequence_first_terms''"
proof (cases "''keywords'' \<in> set (column_names ds)")
  case True
  with assms(1) have "rows ds' = map (\<lambda>r. flag_row r |` (- {''keywords''})) (rows ds)"
    by (simp add: flag_stage_eq_Inr)
  with assms(2) obtain r where "r \<in> set (rows ds)" "r' = flag_row r |` (- {''keywords''})"
    by auto
  then show ?thesis by (auto simp: flag_row_def)
next
  case False
  with assms show ?thesis by (auto simp: stages_skip)
qed

lemma dedup_stage_rows:
  assumes "dedup_stage ds = Inr ds'"
  shows "set (rows ds') \<subseteq> set (rows ds)"
proof (cases "''sequence_first_terms'' \<in> set (column_names ds)")
  case True
  with assms show ?thesis by (auto simp: dedup_stage_eq_Inr dest: in_set_nthsD)
next
  case False
  with assms show ?thesis by (auto simp: stages_skip)
qed

section \<open>The final schema\<close>

text \<open>
  Claim C6. Whatever the input table and the two bounds, the table a run hands to the
  writer has neither a \<^verbatim>\<open>sequence\<close> nor a \<^verbatim>\<open>keywords\<close> column: neither name is in its
  column list and no row has a cell under either.
\<close>

theorem final_schema_excludes:
  assumes "transform max_seq_len min_seq_len ds = Inr out"
  shows "''sequence'' \<notin> set (column_names out) \<and> ''keywords'' \<notin> set (column_names out) \<and>
         (\<forall>r\<in>set (rows out). r ''sequence'' = None \<and> r ''keywords'' = None)"
  using transform_columns [OF assms] transform_within [OF assms]
  by (auto simp: rows_within_def)

theorem final_schema_excludes_witness:
  "transform 8 8 example_input
     = Inr \<lparr>column_names = [''sequence_first_terms'', ''sequence_next_term'', ''is_easy''],
            rows = [[''sequence_first_terms'' \<mapsto> Seq (map AInt [1, 2, 3, 4, 5, 6, 7]),
                     ''sequence_next_term'' \<mapsto> Atom (AInt 8),
                     ''is_easy'' \<mapsto> Atom (AInt 1)]]\<rparr> \<and>
   ''sequence'' \<notin> set [''sequence_first_terms'', ''sequence_next_term'', ''is_easy''] \<and>
   ''keywords'' \<notin> set [''sequence_first_terms'', ''sequence_next_term'', ''is_easy'']"
  using final_schema_excludes [of 8 8 example_input]
  by (simp add: example_input_def pipeline_defs)

section \<open>The example of the specification\<close>

text \<open>
  Claim C8. On the three rows of the example, with both bounds 8: after truncation and the
  length filter two rows are left (row 3, of length 2, is gone); the split gives both the
  first terms 1 to 7 and the next term 8; the deduplicator keeps the first of the two; the
  run ends with one row, first terms 1 to 7, next term 8 and \<^verbatim>\<open>is_easy\<close> 1.
\<close>

theorem spec_example_output:
  "bind_result (select_stage example_input) (\<lambda>d.
     bind_result (truncate_stage 8 d) (filter_stage 8))
     = Inr \<lparr>column_names = [''sequence'', ''keywords''],
            rows = [[''keywords'' \<mapsto> Seq [AStr ''easy''],
                     ''sequence'' \<mapsto> Seq (map AInt [1, 2, 3, 4, 5, 6, 7, 8])],
                    [''keywords'' \<mapsto> Seq [],
                     ''sequence'' \<mapsto> Seq (map AInt [1, 2, 3, 4, 5, 6, 7, 8])]]\<rparr> \<and>
   bind_result (select_stage example_input) (\<lambda>d.
     bind_result (truncate_stage 8 d) (\<lambda>d.
       bind_result (filter_stage 8 d) split_stage))
     = Inr \<lparr>column_names = [''keywords'', ''sequence_first_terms'', ''sequence_next_term''],
            rows = [[''keywords'' \<mapsto> Seq [AStr ''easy''],
                     ''sequence_first_terms'' \<mapsto> Seq (map AInt [1, 2, 3, 4, 5, 6, 7]),
                     ''sequence_next_term'' \<mapsto> Atom (AInt 8)],
                    [''keywords'' \<mapsto> Seq [],
                     ''sequence_first_terms'' \<mapsto> Seq (map AInt [1, 2, 3, 4, 5, 6, 7]),
                     ''sequence_next_term'' \<mapsto> Atom (AInt 8)]]\<rparr> \<and>
   bind_result (select_stage example_input) (\<lambda>d.
     bind_result (truncate_stage 8 d) (\<lambda>d.
       bind_result (filter_stage 8 d) (\<lambda>d.
         bind_result (split_stage d) dedup_stage)))
     = Inr \<lparr>column_names = [''keywords'', ''sequence_first_terms'', ''sequence_next_term''],
            rows = [[''keywords'' \<mapsto> Seq [AStr ''easy''],
                     ''sequence_first_terms'' \<mapsto> Seq (map AInt [1, 2, 3, 4, 5, 6, 7]),
                     ''sequence_next_term'' \<mapsto> Atom (AInt 8)]]\<rparr> \<and>
   transform 8 8 example_input
     = Inr \<lparr>column_names = [''sequence_first_terms'', ''sequence_next_term'', ''is_easy''],
            rows = [[''sequence_first_terms'' \<mapsto> Seq (map AInt [1, 2, 3, 4, 5, 6, 7]),
                     ''sequence_next_term'' \<mapsto> Atom (AInt 8),
                     ''is_easy'' \<mapsto> Atom (AInt 1)]]\<rparr> \<and>
   process_oeis_dataset (Inr (DatasetDict [''train'' \<mapsto> example_input])) (\<lambda>sub_ds. None) 8 8
     = \<lparr>raised = None,
        written = Some \<lparr>column_names = [''sequence_first_terms'', ''sequence_next_term'', ''is_easy''],
            rows = [[''sequence_first_terms'' \<mapsto> Seq (map AInt [1, 2, 3, 4, 5, 6, 7]),
                     ''sequence_next_term'' \<mapsto> Atom (AInt 8),
                     ''is_easy'' \<mapsto> Atom (AInt 1)]]\<rparr>\<rparr>"
  by (simp add: process_oeis_dataset_def example_input_def pipeline_defs)

section \<open>Lengths of the first terms\<close>

text \<open>
  Claim C10. For a table with the \<^verbatim>\<open>sequence\<close> column, \<open>1 \<le> min_seq_len\<close> and \<open>max_seq_len\<close>
  in the domain section 6 of the specification gives it, a positive integer (zero is covered
  as well), every row of the table a run hands to the writer holds a list of first terms
  whose length is at least \<open>min_seq_len - 1\<close> and at most \<open>max_seq_len - 1\<close>: truncation bounds
  the length of the sequence above, the filter bounds it below, and the split takes one
  element away.
\<close>

theorem first_terms_length_bounds:
  assumes "''sequence'' \<in> set (column_names ds)"
    and "1 \<le> min_seq_len" and "0 \<le> max_seq_len"
    and "transform max_seq_len min_seq_len ds = Inr out"
  shows "\<forall>r\<in>set (rows out).
           holds_list ''sequence_first_terms'' r \<and>
           min_seq_len - 1 \<le> int (length (seq_at ''sequence_first_terms'' r)) \<and>
           int (length (seq_at ''sequence_first_terms'' r)) \<le> max_seq_len - 1"
proof
  fix r' assume r': "r' \<in> set (rows out)"
  from assms(4) obtain d2 d3 d4 d5 d6 where
    st: "select_stage ds = Inr d2" "truncate_stage max_seq_len d2 = Inr d3"
        "filter_stage min_seq_len d3 = Inr d4" "split_stage d4 = Inr d5"
        "dedup_stage d5 = Inr d6" "flag_stage d6 = Inr out"
    unfolding transform_eq_Inr by blast
  have s2: "''sequence'' \<in> set (column_names d2)"
    using assms(1) select_stage_columns [OF st(1)] by (simp add: required_columns_def)
  then have s3: "''sequence'' \<in> set (column_names d3)"
    using truncate_stage_columns [OF st(2)] by simp
  then have s4: "''sequence'' \<in> set (column_names d4)"
    using filter_stage_columns [OF st(3)] by simp
  have d3: "rows d3 = map (\<lambda>r. r(''sequence'' \<mapsto> Seq (truncated max_seq_len (seq_at ''sequence'' r))))
                        (rows d2)"
    using st(2) s2 by (simp add: truncate_stage_eq_Inr)
  have d4: "rows d4 = filter (\<lambda>r. min_seq_len \<le> int (length (seq_at ''sequence'' r))) (rows d3)"
    using st(3) s3 by (simp add: filter_stage_eq_Inr)
  have d5: "rows d5 = map split_row (rows d4)"
    using st(4) s4 by (simp add: split_stage_eq_Inr)
  from flag_stage_first_terms [OF st(6) r'] obtain r6 where
    r6: "r6 \<in> set (rows d6)" "r' ''sequence_first_terms'' = r6 ''sequence_first_terms''"
    by blast
  from r6(1) dedup_stage_rows [OF st(5)] have "r6 \<in> set (rows d5)" by blast
  then obtain r4 where r4: "r4 \<in> set (rows d4)" "r6 = split_row r4"
    unfolding d5 by auto
  from r4(1) have lo: "min_seq_len \<le> int (length (seq_at ''sequence'' r4))"
    and "r4 \<in> set (rows d3)"
    unfolding d4 by auto
  then obtain r2 where "r4 = r2(''sequence'' \<mapsto> Seq (truncated max_seq_len (seq_at ''sequence'' r2)))"
    unfolding d3 by auto
  then have hi: "int (length (seq_at ''sequence'' r4)) \<le> max_seq_len"
    using assms(3) by (simp add: truncated_length)
  have ft: "r' ''sequence_first_terms'' = Some (Seq (butlast (seq_at ''sequence'' r4)))"
    using r6(2) r4(2) by (simp add: split_row_fields)
  then have "holds_list ''sequence_first_terms'' r'"
    and "seq_at ''sequence_first_terms'' r' = butlast (seq_at ''sequence'' r4)"
    by (simp_all add: holds_list_def)
  with lo hi assms(2)
  show "holds_list ''sequence_first_terms'' r' \<and>
        min_seq_len - 1 \<le> int (length (seq_at ''sequence_first_terms'' r')) \<and>
        int (length (seq_at ''sequence_first_terms'' r')) \<le> max_seq_len - 1"
    by auto
qed

theorem first_terms_length_bounds_witness:
  "transform 8 8 example_input
     = Inr \<lparr>column_names = [''sequence_first_terms'', ''sequence_next_term'', ''is_easy''],
            rows = [[''sequence_first_terms'' \<mapsto> Seq (map AInt [1, 2, 3, 4, 5, 6, 7]),
                     ''sequence_next_term'' \<mapsto> Atom (AInt 8),
                     ''is_easy'' \<mapsto> Atom (AInt 1)]]\<rparr> \<and>
   (8::int) - 1 \<le> int (length (map AInt [1, 2, 3, 4, 5, 6, 7])) \<and>
   int (length (map AInt [1, 2, 3, 4, 5, 6, 7])) \<le> 8 - 1"
  using first_terms_length_bounds [of example_input 8 8]
  by (simp add: example_input_def pipeline_defs)

section \<open>Runs that reach the writer\<close>

lemma holds_list_restrict:
  "c \<in> A \<Longrightarrow> holds_list c (r |` A) = holds_list c r"
  by (simp add: holds_list_def)

lemma holds_list_split_row: "holds_list ''sequence_first_terms'' (split_row r)"
  by (simp add: holds_list_def split_row_fields)

lemma split_row_keywords: "split_row r ''keywords'' = r ''keywords''"
  by (simp add: split_row_def)

text \<open>A run on well-typed columns reaches the writer, if no empty sequence reaches the split.\<close>

lemma transform_total:
  assumes seq: "''sequence'' \<in> set (column_names ds) \<Longrightarrow>
                  1 \<le> n \<and> (\<forall>r\<in>set (rows ds). holds_list ''sequence'' r)"
    and kw: "''keywords'' \<in> set (column_names ds) \<Longrightarrow>
                  \<forall>r\<in>set (rows ds). holds_list ''keywords'' r"
  shows "\<exists>out. transform m n ds = Inr out"
proof -
  let ?cols = "filter (\<lambda>c. c \<in> set (column_names ds)) required_columns"
  define d2 where "d2 = \<lparr>column_names = ?cols, rows = map (\<lambda>r. r |` set ?cols) (rows ds)\<rparr>"
  have st2: "select_stage ds = Inr d2"
    by (simp add: select_stage_eq d2_def)
  have c2: "column_names d2 = ?cols" by (simp add: d2_def)
  have ft2: "''sequence_first_terms'' \<notin> set (column_names d2)"
    by (simp add: c2 required_columns_def)
  have kw2: "\<forall>r\<in>set (rows d2). \<forall>a. r ''keywords'' \<noteq> Some (Atom a)"
  proof (cases "''keywords'' \<in> set (column_names ds)")
    case True
    then have "''keywords'' \<in> set ?cols" by (simp add: required_columns_def)
    with kw [OF True] show ?thesis
      by (auto simp: d2_def holds_list_def split: option.splits cell.splits)
  next
    case False
    then show ?thesis by (auto simp: d2_def restrict_map_def)
  qed
  have "\<exists>d6. bind_result (truncate_stage m d2) (\<lambda>d3. bind_result (filter_stage n d3)
                 (\<lambda>d4. bind_result (split_stage d4) dedup_stage)) = Inr d6 \<and>
             (\<forall>r\<in>set (rows d6). \<forall>a. r ''keywords'' \<noteq> Some (Atom a))"
  proof (cases "''sequence'' \<in> set (column_names ds)")
    case False
    then have "''sequence'' \<notin> set (column_names d2)" by (simp add: c2)
    with ft2 kw2 show ?thesis by (simp add: stages_skip)
  next
    case True
    then have s2: "''sequence'' \<in> set (column_names d2)"
      by (simp add: c2 required_columns_def)
    then have in_cols: "''sequence'' \<in> set ?cols" by (simp add: c2)
    have t2: "\<forall>r\<in>set (rows d2). holds_list ''sequence'' r"
      using seq [OF True] in_cols by (simp add: d2_def holds_list_restrict)
    define d3 where "d3 = d2\<lparr>rows := map (\<lambda>r. r(''sequence'' \<mapsto>
                         Seq (truncated m (seq_at ''sequence'' r)))) (rows d2)\<rparr>"
    have st3: "truncate_stage m d2 = Inr d3"
      using s2 t2 by (simp add: truncate_stage_eq_Inr d3_def)
    have s3: "''sequence'' \<in> set (column_names d3)" using s2 by (simp add: d3_def)
    have t3: "\<forall>r\<in>set (rows d3). holds_list ''sequence'' r" by (simp add: d3_def)
    have kw3: "\<forall>r\<in>set (rows d3). \<forall>a. r ''keywords'' \<noteq> Some (Atom a)"
      using kw2 by (simp add: d3_def)
    define d4 where "d4 = d3\<lparr>rows := filter (\<lambda>r. n \<le> int (length (seq_at ''sequence'' r)))
                                          (rows d3)\<rparr>"
    have st4: "filter_stage n d3 = Inr d4"
      using s3 t3 by (simp add: filter_stage_eq_Inr d4_def)
    have s4: "''sequence'' \<in> set (column_names d4)" using s3 by (simp add: d4_def)
    have t4: "\<forall>r\<in>set (rows d4). holds_list ''sequence'' r \<and> seq_at ''sequence'' r \<noteq> []"
      using t3 seq [OF True] by (auto simp: d4_def)
    have kw4: "\<forall>r\<in>set (rows d4). \<forall>a. r ''keywords'' \<noteq> Some (Atom a)"
      using kw3 by (simp add: d4_def)
    define d5 where "d5 = \<lparr>column_names =
                    filter (\<lambda>c. c \<noteq> ''sequence'')
                      (add_column_name ''sequence_next_term''
                        (add_column_name ''sequence_first_terms'' (column_names d4))),
                  rows = map split_row (rows d4)\<rparr>"
    have st5: "split_stage d4 = Inr d5"
      using s4 t4 by (simp add: split_stage_eq_Inr d5_def)
    have ft5: "''sequence_first_terms'' \<in> set (column_names d5)" by (simp add: d5_def)
    have t5: "\<forall>r\<in>set (rows d5). holds_list ''sequence_first_terms'' r"
      by (simp add: d5_def holds_list_split_row)
    have kw5: "\<forall>r\<in>set (rows d5). \<forall>a. r ''keywords'' \<noteq> Some (Atom a)"
      using kw4 by (simp add: d5_def split_row_keywords)
    define d6 where "d6 = d5\<lparr>rows := nths (rows d5) {i. first_occurrence (rows d5) i}\<rparr>"
    have st6: "dedup_stage d5 = Inr d6"
      using ft5 t5 by (simp add: dedup_stage_eq_Inr d6_def)
    have kw6: "\<forall>r\<in>set (rows d6). \<forall>a. r ''keywords'' \<noteq> Some (Atom a)"
      using kw5 by (auto simp: d6_def dest: in_set_nthsD)
    show ?thesis using st3 st4 st5 st6 kw6 by simp
  qed
  then obtain d6 where
    run: "bind_result (truncate_stage m d2) (\<lambda>d3. bind_result (filter_stage n d3)
                 (\<lambda>d4. bind_result (split_stage d4) dedup_stage)) = Inr d6"
    and kw6: "\<forall>r\<in>set (rows d6). \<forall>a. r ''keywords'' \<noteq> Some (Atom a)"
    by blast
  have "\<exists>out. flag_stage d6 = Inr out"
  proof (cases "''keywords'' \<in> set (column_names d6)")
    case True
    with kw6 show ?thesis by (simp add: flag_stage_eq_Inr)
  next
    case False
    then show ?thesis by (simp add: stages_skip)
  qed
  then obtain out where "flag_stage d6 = Inr out" by blast
  with st2 run have "transform m n ds = Inr out"
    by (auto simp: transform_def bind_result_eq_Inr)
  then show ?thesis by blast
qed

lemma bind_result_assoc:
  "bind_result (bind_result a f) g = bind_result a (\<lambda>x. bind_result (f x) g)"
  by (cases a) simp_all

lemma bind_result_skip:
  "(\<And>x. a = Inr x \<Longrightarrow> f x = Inr x) \<Longrightarrow> bind_result a f = a"
  by (cases a) simp_all

text \<open>The stages on the sequence column, steps 3 to 6.\<close>

lemma sequence_stages_columns:
  assumes "bind_result (truncate_stage m d2) (\<lambda>d3. bind_result (filter_stage n d3)
             (\<lambda>d4. bind_result (split_stage d4) dedup_stage)) = Inr d6"
  shows "set (column_names d6)
           \<subseteq> set (column_names d2) \<union> {''sequence_first_terms'', ''sequence_next_term''}"
proof -
  from assms obtain d3 d4 d5 where
    st: "truncate_stage m d2 = Inr d3" "filter_stage n d3 = Inr d4" "split_stage d4 = Inr d5"
        "dedup_stage d5 = Inr d6"
    by (auto simp: bind_result_eq_Inr)
  have "column_names d4 = column_names d2"
    using st(1,2) by (simp add: truncate_stage_columns filter_stage_columns)
  moreover have "column_names d6 = column_names d5"
    using st(4) by (simp add: dedup_stage_columns)
  ultimately show ?thesis
    using split_stage_columns [OF st(3)] by (auto split: if_splits)
qed

lemma transform_without_sequence:
  assumes "''sequence'' \<notin> set (column_names ds)"
  shows "transform m n ds = bind_result (select_stage ds) flag_stage"
proof -
  let ?cols = "filter (\<lambda>c. c \<in> set (column_names ds)) required_columns"
  let ?d2 = "\<lparr>column_names = ?cols, rows = map (\<lambda>r. r |` set ?cols) (rows ds)\<rparr>"
  have "''sequence'' \<notin> set (column_names ?d2)" using assms by simp
  moreover have "''sequence_first_terms'' \<notin> set (column_names ?d2)"
    by (simp add: required_columns_def)
  ultimately show ?thesis
    by (simp add: transform_def select_stage_eq stages_skip)
qed

lemma transform_without_keywords:
  assumes "''keywords'' \<notin> set (column_names ds)"
  shows "transform m n ds =
           bind_result (select_stage ds) (\<lambda>d2.
             bind_result (truncate_stage m d2) (\<lambda>d3.
               bind_result (filter_stage n d3) (\<lambda>d4.
                 bind_result (split_stage d4) dedup_stage)))"
proof -
  let ?cols = "filter (\<lambda>c. c \<in> set (column_names ds)) required_columns"
  let ?d2 = "\<lparr>column_names = ?cols, rows = map (\<lambda>r. r |` set ?cols) (rows ds)\<rparr>"
  let ?seq = "bind_result (truncate_stage m ?d2) (\<lambda>d3. bind_result (filter_stage n d3)
                (\<lambda>d4. bind_result (split_stage d4) dedup_stage))"
  have "flag_stage d6 = Inr d6" if "?seq = Inr d6" for d6
  proof -
    have "''keywords'' \<notin> set (column_names d6)"
      using sequence_stages_columns [OF that] assms by auto
    then show ?thesis by (simp add: stages_skip)
  qed
  then have "bind_result ?seq flag_stage = ?seq"
    by (rule bind_result_skip)
  then show ?thesis
    by (simp add: transform_def select_stage_eq bind_result_assoc)
qed

lemma transform_no_flag_column:
  assumes "''keywords'' \<notin> set (column_names ds)" and "transform m n ds = Inr out"
  shows "''is_easy'' \<notin> set (column_names out)"
proof -
  from assms(2) obtain d2 where
    d2: "select_stage ds = Inr d2" and
    rest: "bind_result (truncate_stage m d2) (\<lambda>d3. bind_result (filter_stage n d3)
             (\<lambda>d4. bind_result (split_stage d4) dedup_stage)) = Inr out"
    unfolding transform_without_keywords [OF assms(1)] by (auto simp: bind_result_eq_Inr)
  have "''is_easy'' \<notin> set (column_names d2)"
    using select_stage_columns [OF d2] by (simp add: required_columns_def)
  with sequence_stages_columns [OF rest] show ?thesis by auto
qed

lemma process_returns:
  "transform m n ds = Inr out \<Longrightarrow>
     raised (process_oeis_dataset (Inr (Dataset ds)) to_parquet m n) = None"
  by (simp add: process_oeis_dataset_def split: option.splits)

section \<open>Missing columns\<close>

text \<open>
  Claim C7. A missing column does not stop the run. Without the \<^verbatim>\<open>sequence\<close> column,
  truncation, the length filter and the split each return the table as it is, and the run
  is the selection followed by the flag stage. Without the \<^verbatim>\<open>sequence_first_terms\<close> column
  the deduplicator returns its input. Without the \<^verbatim>\<open>keywords\<close> column the flag deriver
  returns its input, so no \<^verbatim>\<open>is_easy\<close> column is added, and the run is the selection
  followed by the stages on the sequence. In each case the run reaches the writer and
  returns to its caller without an exception, provided the columns that are present hold
  lists and, when the sequence column is present, \<open>1 \<le> n\<close> keeps empty sequences from the
  split.
\<close>

theorem missing_columns_degrade:
  "(''sequence'' \<notin> set (column_names ds) \<longrightarrow>
      truncate_stage m ds = Inr ds \<and> filter_stage n ds = Inr ds \<and> split_stage ds = Inr ds \<and>
      transform m n ds = bind_result (select_stage ds) flag_stage) \<and>
   (''sequence_first_terms'' \<notin> set (column_names ds) \<longrightarrow>
      drop_duplicate_sequence_beginnings ds = Inr ds \<and> dedup_stage ds = Inr ds) \<and>
   (''keywords'' \<notin> set (column_names ds) \<longrightarrow>
      add_is_easy_column ds = Inr ds \<and> flag_stage ds = Inr ds \<and>
      transform m n ds =
        bind_result (select_stage ds) (\<lambda>d2.
          bind_result (truncate_stage m d2) (\<lambda>d3.
            bind_result (filter_stage n d3) (\<lambda>d4.
              bind_result (split_stage d4) dedup_stage)))) \<and>
   ((''sequence'' \<notin> set (column_names ds) \<or> ''keywords'' \<notin> set (column_names ds)) \<and>
    (''sequence'' \<in> set (column_names ds) \<longrightarrow>
       1 \<le> n \<and> (\<forall>r\<in>set (rows ds). holds_list ''sequence'' r)) \<and>
    (''keywords'' \<in> set (column_names ds) \<longrightarrow>
       (\<forall>r\<in>set (rows ds). holds_list ''keywords'' r)) \<longrightarrow>
      (\<exists>out. transform m n ds = Inr out \<and>
             (''keywords'' \<notin> set (column_names ds) \<longrightarrow> ''is_easy'' \<notin> set (column_names out)) \<and>
             raised (process_oeis_dataset (Inr (Dataset ds)) to_parquet m n) = None))"
proof (intro conjI impI)
  assume h: "(''sequence'' \<notin> set (column_names ds) \<or> ''keywords'' \<notin> set (column_names ds)) \<and>
    (''sequence'' \<in> set (column_names ds) \<longrightarrow>
       1 \<le> n \<and> (\<forall>r\<in>set (rows ds). holds_list ''sequence'' r)) \<and>
    (''keywords'' \<in> set (column_names ds) \<longrightarrow>
       (\<forall>r\<in>set (rows ds). holds_list ''keywords'' r))"
  then obtain out where out: "transform m n ds = Inr out"
    using transform_total [of ds n m] by blast
  show "\<exists>out. transform m n ds = Inr out \<and>
             (''keywords'' \<notin> set (column_names ds) \<longrightarrow> ''is_easy'' \<notin> set (column_names out)) \<and>
             raised (process_oeis_dataset (Inr (Dataset ds)) to_parquet m n) = None"
    using out transform_no_flag_column [OF _ out] process_returns [OF out] by blast
qed (simp_all add: stages_skip transform_without_sequence transform_without_keywords)

theorem missing_columns_degrade_witness:
  "transform 20 8 \<lparr>column_names = [''sequence_id''],
                    rows = [[''sequence_id'' \<mapsto> Atom (AStr ''A000001'')]]\<rparr>
     = Inr \<lparr>column_names = [''sequence_id''],
            rows = [[''sequence_id'' \<mapsto> Atom (AStr ''A000001'')]]\<rparr> \<and>
   transform 20 2 \<lparr>column_names = [''sequence_id'', ''sequence''],
                    rows = [[''sequence_id'' \<mapsto> Atom (AStr ''A000002''),
                             ''sequence'' \<mapsto> Seq [AInt 1, AInt 2, AInt 2]]]\<rparr>
     = Inr \<lparr>column_names = [''sequence_id'', ''sequence_first_terms'', ''sequence_next_term''],
            rows = [[''sequence_id'' \<mapsto> Atom (AStr ''A000002''),
                     ''sequence_first_terms'' \<mapsto> Seq [AInt 1, AInt 2],
                     ''sequence_next_term'' \<mapsto> Atom (AInt 2)]]\<rparr> \<and>
   transform 20 8 \<lparr>column_names = [''keywords''],
                    rows = [[''keywords'' \<mapsto> Seq [AStr ''easy'']]]\<rparr>
     = Inr \<lparr>column_names = [''is_easy''], rows = [[''is_easy'' \<mapsto> Atom (AInt 1)]]\<rparr>"
  using missing_columns_degrade
          [of "\<lparr>column_names = [''sequence_id''],
                 rows = [[''sequence_id'' \<mapsto> Atom (AStr ''A000001'')]]\<rparr>" 20 8 "\<lambda>sub_ds. None"]
        missing_columns_degrade
          [of "\<lparr>column_names = [''sequence_id'', ''sequence''],
                    rows = [[''sequence_id'' \<mapsto> Atom (AStr ''A000002''),
                             ''sequence'' \<mapsto> Seq [AInt 1, AInt 2, AInt 2]]]\<rparr>" 20 2
              "\<lambda>sub_ds. None"]
        missing_columns_degrade
          [of "\<lparr>column_names = [''keywords''],
                    rows = [[''keywords'' \<mapsto> Seq [AStr ''easy'']]]\<rparr>" 20 8 "\<lambda>sub_ds. None"]
  by (simp add: pipeline_defs)

section \<open>Failures at the boundary\<close>

text \<open>
  Claim C9. A run whose load raises, or returns an object that is neither a table nor a
  dict of tables, or returns a dict without a \<^verbatim>\<open>train\<close> entry, returns to its caller without
  an exception and writes nothing. A run whose write raises returns to its caller without
  an exception as well.
\<close>

theorem failures_caught:
  "process_oeis_dataset (Inl e) to_parquet m n = \<lparr>raised = None, written = None\<rparr> \<and>
   process_oeis_dataset (Inr OtherObject) to_parquet m n = \<lparr>raised = None, written = None\<rparr> \<and>
   (d ''train'' = None \<longrightarrow>
      process_oeis_dataset (Inr (DatasetDict d)) to_parquet m n
        = \<lparr>raised = None, written = None\<rparr>) \<and>
   (transform m n ds = Inr out \<and> to_parquet out = Some e' \<longrightarrow>
      raised (process_oeis_dataset (Inr (Dataset ds)) to_parquet m n) = None \<and>
      raised (process_oeis_dataset (Inr (DatasetDict [''train'' \<mapsto> ds])) to_parquet m n) = None)"
  by (simp add: process_oeis_dataset_def)

theorem failures_caught_witness:
  "process_oeis_dataset (Inr (DatasetDict Map.empty)) (\<lambda>sub_ds. Some WriteError) 8 8
     = \<lparr>raised = None, written = None\<rparr> \<and>
   process_oeis_dataset (Inr (Dataset example_input)) (\<lambda>sub_ds. Some WriteError) 8 8
     = \<lparr>raised = None, written = None\<rparr>"
  using failures_caught [of LoadError "\<lambda>sub_ds. Some WriteError" 8 8 Map.empty example_input
          "\<lparr>column_names = [''sequence_first_terms'', ''sequence_next_term'', ''is_easy''],
            rows = [[''sequence_first_terms'' \<mapsto> Seq (map AInt [1, 2, 3, 4, 5, 6, 7]),
                     ''sequence_next_term'' \<mapsto> Atom (AInt 8),
                     ''is_easy'' \<mapsto> Atom (AInt 1)]]\<rparr>" WriteError]
  by (simp add: process_oeis_dataset_def example_input_def pipeline_defs)

end
